theory Spec2Isabelle
  imports Complex_Main "HOL-Library.Word"
begin

unbundle bit_operations_syntax

section \<open>Text, spans and the collaborators outside the sources\<close>

text \<open>
  A \<open>std::string\<close> is a list of bytes (\<^typ>\<open>string\<close>). A \<open>UnicodeText\<close> holds
  UTF-8 and is read codepoint by codepoint: it is modelled by the list of its codepoints,
  an iterator into it by the number of codepoints before it, and its bytes by the encoding
  of its codepoints. \<open>CodepointIndex\<close> and \<open>TokenIndex\<close> are 32-bit \<open>int\<close> in the sources.
  Positions in a text and in a token vector are counted exactly; the one sum of the
  sources that leaves the vector's range, \<open>start + max_num_tokens\<close>, is taken with its
  two's complement wrap-around.
\<close>

type_synonym char32 = nat
type_synonym UnicodeText = "char32 list"
type_synonym CodepointIndex = int
type_synonym CodepointSpan = "CodepointIndex \<times> CodepointIndex"

record Token =
  tok_value :: string
  tok_start :: CodepointIndex
  tok_end :: CodepointIndex
  is_padding :: bool

record ClassificationResult =
  collection :: string
  score :: real
  priority_score :: real
  numeric_value :: int
  numeric_double_value :: real

record AnnotatedSpan =
  span :: CodepointSpan
  classification :: "ClassificationResult list"

text \<open>
  The classes and tables that \<open>normalizer.cc\<close>, \<open>lookup-engine.cc\<close> and \<open>number.cc\<close>
  call but that are not among the sources are parameters of the model, gathered in one
  record: the \<open>UnicodeText\<close> codec (\<open>is_valid\<close>, decoding, \<open>push_back\<close> of one codepoint),
  \<open>UniLib::ToLower\<close>, the generated normalization table, the two overloads of
  \<open>FeatureProcessor::StripBoundaryCodepoints\<close>, \<open>FeatureProcessor::Tokenize\<close> and
  \<open>SortedStringsTable::LongestPrefixMatch\<close> (the match length in bytes, or \<open>-1\<close>).
\<close>

record externals =
  is_valid :: "string \<Rightarrow> bool"
  UTF8ToUnicodeText :: "string \<Rightarrow> UnicodeText"
  push_back :: "char32 \<Rightarrow> string"
  ToLower :: "char32 \<Rightarrow> char32"
  GetNormalizationTable :: "string \<rightharpoonup> string"
  StripBoundaryCodepoints ::
    "UnicodeText \<Rightarrow> CodepointIndex \<Rightarrow> CodepointIndex \<Rightarrow> CodepointSpan \<Rightarrow> CodepointSpan"
  StripBoundaryCodepointsSets ::
    "UnicodeText \<Rightarrow> CodepointSpan \<Rightarrow> char32 set \<Rightarrow> char32 set \<Rightarrow> CodepointSpan"
  Tokenize :: "UnicodeText \<Rightarrow> Token list"
  LongestPrefixMatch :: "string \<Rightarrow> int"

text \<open>\<open>UnicodeText::ToUTF8String\<close> and \<open>UnicodeText::UTF8Substring\<close>: the bytes of the
  codepoints, respectively of those between two iterators.\<close>

definition ToUTF8String :: "externals \<Rightarrow> UnicodeText \<Rightarrow> string" where
  "ToUTF8String ext t = concat (map (push_back ext) t)"

definition UTF8Substring ::
  "externals \<Rightarrow> UnicodeText \<Rightarrow> CodepointIndex \<Rightarrow> CodepointIndex \<Rightarrow> string" where
  "UTF8Substring ext t it_first it_last =
     ToUTF8String ext (drop (nat it_first) (take (nat it_last) t))"

section \<open>Normalizer\<close>

text \<open>
  Modelled from the spec: \<open>utils/strings/utf8.h\<close> (\<open>IsTrailByte\<close>,
  \<open>GetNumBytesForUTF8Char\<close>) is not among the sources. A trail byte is \<open>10xxxxxx\<close>; the
  encoded length is read off the leading one-bits of the first byte and is always positive.
  The theorems about \<open>Normalize\<close> use of the length only that it is positive.
\<close>

definition IsTrailByte :: "char \<Rightarrow> bool" where
  "IsTrailByte x = (0x80 \<le> (of_char x :: nat) \<and> (of_char x :: nat) < 0xC0)"

definition GetNumBytesForUTF8Char :: "char \<Rightarrow> nat" where
  "GetNumBytesForUTF8Char c =
     (if (of_char c :: nat) < 0xC0 then 1
      else if (of_char c :: nat) < 0xE0 then 2
      else if (of_char c :: nat) < 0xF0 then 3
      else 4)"

definition Utf8CharLength :: "char \<Rightarrow> nat" where
  "Utf8CharLength first_byte =
     (if IsTrailByte first_byte then 1 else GetNumBytesForUTF8Char first_byte)"

lemma Utf8CharLength_pos: "0 < Utf8CharLength b"
  by (simp add: Utf8CharLength_def GetNumBytesForUTF8Char_def)

text \<open>The body of the loop for one character: the table's substitution, or the character
  itself, case-folded codepoint by codepoint when \<open>fold_case\<close> is set.\<close>

definition normalized_chars :: "externals \<Rightarrow> bool \<Rightarrow> string \<Rightarrow> string" where
  "normalized_chars ext fold_case utf8_char =
     (let substituted =
            (case GetNormalizationTable ext utf8_char of
               Some v \<Rightarrow> v
             | None \<Rightarrow> utf8_char)
      in if fold_case
         then ToUTF8String ext (map (ToLower ext) (UTF8ToUnicodeText ext substituted))
         else substituted)"

text \<open>The \<open>while (bytes_left > 0)\<close> loop. \<open>input_left\<close> is what remains of the input,
  \<open>original_indices\<close> is \<open>None\<close> for a null pointer.\<close>

function Normalize_loop ::
  "externals \<Rightarrow> bool \<Rightarrow> string \<Rightarrow> nat \<Rightarrow> string \<Rightarrow> nat list option
     \<Rightarrow> string \<times> nat list option" where
  "Normalize_loop ext fold_case input_left codepoint_start_index output original_indices =
     (if 0 < length input_left then
        (let utf8_char_length = Utf8CharLength (hd input_left) in
         if utf8_char_length > length input_left then (output, original_indices)
         else
           (let utf8_char = take utf8_char_length input_left;
                nc = normalized_chars ext fold_case utf8_char
            in Normalize_loop ext fold_case (drop utf8_char_length input_left)
                 (codepoint_start_index + utf8_char_length)
                 (output @ nc)
                 (map_option (\<lambda>oi. oi @ replicate (length nc) codepoint_start_index)
                    original_indices)))
      else (output, original_indices))"
  by pat_completeness auto
termination
  by (relation "measure (\<lambda>(ext, fold_case, input_left, rest). length input_left)")
     (auto simp: Utf8CharLength_pos)

declare Normalize_loop.simps [simp del]

text \<open>\<open>Normalizer::Normalize\<close>: the output and, when \<open>want_indices\<close> (a non-null
  \<open>original_indices\<close>), the cleared and refilled index vector.\<close>

definition Normalize ::
  "externals \<Rightarrow> string \<Rightarrow> bool \<Rightarrow> bool \<Rightarrow> string \<times> nat list option" where
  "Normalize ext input fold_case want_indices =
     (let (output, original_indices) =
            Normalize_loop ext fold_case input 0 []
              (if want_indices then Some [] else None)
      in (output, map_option (\<lambda>oi. oi @ [length input]) original_indices))"

section \<open>NumberAnnotator\<close>

text \<open>\<open>int64\<close> values are integers in two's complement range; \<open>int64\<close> below is what a
  wrapping 64-bit register holds after an operation whose exact result is \<open>x\<close>.\<close>

definition INT64_MAX :: int where
  "INT64_MAX = 9223372036854775807"

definition int64 :: "int \<Rightarrow> int" where
  "int64 x = (x + 2 ^ 63) mod 2 ^ 64 - 2 ^ 63"

record NumberAnnotatorOptions =
  enabled :: bool
  enabled_annotation_usecases :: nat
  opt_score :: real
  opt_priority_score :: real
  float_number_priority_score :: real
  percentage_priority_score :: real
  enable_percentage :: bool

record NumberAnnotator =
  options :: NumberAnnotatorOptions
  allowed_prefix_codepoints :: "char32 set"
  allowed_suffix_codepoints :: "char32 set"
  ignored_prefix_span_boundary_codepoints :: "char32 set"
  ignored_suffix_span_boundary_codepoints :: "char32 set"

text \<open>Modelled from the spec: \<open>annotator/collections.h\<close> is not among the sources; the two
  collection tags are the ones the spec names.\<close>

definition Collections_Number :: string where
  "Collections_Number = ''Number''"

definition Collections_Percentage :: string where
  "Collections_Percentage = ''Percentage''"

text \<open>\<open>ParseNextNumericCodepoint\<close>: \<open>None\<close> is \<open>false\<close>, otherwise the new value of
  \<open>*current_value\<close>.\<close>

definition ParseNextNumericCodepoint :: "char32 \<Rightarrow> int \<Rightarrow> int option" where
  "ParseNextNumericCodepoint codepoint current_value =
     (if current_value > INT64_MAX div 10 - 10 then None
      else Some (int64 (current_value * 10 + int codepoint - 0x30)))"

datatype State = PARSING_WHOLE_PART | PARSING_FLOATING_PART | PARSING_DONE

record parser =
  state :: State
  int_result :: int
  has_decimal :: bool
  decimal_result :: int
  decimal_result_denominator :: int
  number_digits :: int
  it :: nat

text \<open>The sign loop of \<open>ConsumeAndParseNumber\<close>: the sign and the iterator (counted from
  \<open>it_begin\<close>) after the leading run of \<open>-\<close> and \<open>+\<close>.\<close>

fun consume_sign :: "UnicodeText \<Rightarrow> int \<Rightarrow> nat \<Rightarrow> int \<times> nat" where
  "consume_sign [] sign i = (sign, i)"
| "consume_sign (c # cs) sign i =
     (if c = 0x2D \<or> c = 0x2B
      then consume_sign cs (if c = 0x2D then - 1 else 1) (i + 1)
      else (sign, i))"

text \<open>The \<open>while (it != it_end)\<close> loop over the codepoints from \<open>it\<close> on. \<open>None\<close> is the
  \<open>return it_begin\<close> inside the loop; otherwise the variables at the loop's exit.\<close>

fun parse_loop :: "UnicodeText \<Rightarrow> parser \<Rightarrow> parser option" where
  "parse_loop [] p = Some p"
| "parse_loop (c # cs) p =
     (case state p of
        PARSING_WHOLE_PART \<Rightarrow>
          (if 0x30 \<le> c \<and> c \<le> 0x39 then
             (case ParseNextNumericCodepoint c (int_result p) of
                None \<Rightarrow> None
              | Some v \<Rightarrow>
                  parse_loop cs
                    (p\<lparr>int_result := v, number_digits := number_digits p + 1, it := it p + 1\<rparr>))
           else if c = 0x2E \<or> c = 0x2C then
             parse_loop cs
               (p\<lparr>state := PARSING_FLOATING_PART, number_digits := number_digits p + 1,
                   it := it p + 1\<rparr>)
           else Some (p\<lparr>state := PARSING_DONE\<rparr>))
      | PARSING_FLOATING_PART \<Rightarrow>
          (if 0x30 \<le> c \<and> c \<le> 0x39 then
             (case ParseNextNumericCodepoint c (decimal_result p) of
                None \<Rightarrow> Some (p\<lparr>has_decimal := True, state := PARSING_DONE\<rparr>)
              | Some v \<Rightarrow>
                  parse_loop cs
                    (p\<lparr>has_decimal := True, decimal_result := v,
                        decimal_result_denominator := int64 (decimal_result_denominator p * 10),
                        number_digits := number_digits p + 1, it := it p + 1\<rparr>))
           else Some (p\<lparr>state := PARSING_DONE\<rparr>))
      | PARSING_DONE \<Rightarrow> Some p)"

record parsed_number =
  it_after :: nat
  parsed_int_value :: int
  parsed_double_value :: real
  parsed_has_decimal :: bool

text \<open>\<open>ConsumeAndParseNumber\<close> on the codepoints between \<open>it_begin\<close> and \<open>it_end\<close>. The
  returned iterator is counted from \<open>it_begin\<close>, so \<open>return it_begin\<close> is \<open>it_after = 0\<close>. The
  \<open>double\<close> is modelled by the exact quotient only: the rounding of IEEE arithmetic and the
  quotient by a denominator that has wrapped to zero are outside the model, and no
  statement below depends on \<open>parsed_double_value\<close> other than where it is exactly 0.\<close>

definition ConsumeAndParseNumber :: "UnicodeText \<Rightarrow> parsed_number" where
  "ConsumeAndParseNumber text =
     (let (sign, i) = consume_sign text 1 0
      in case parse_loop (drop i text)
                \<lparr>state = PARSING_WHOLE_PART, int_result = 0, has_decimal = False,
                 decimal_result = 0, decimal_result_denominator = 1, number_digits = 0,
                 it = i\<rparr> of
           None \<Rightarrow>
             \<lparr>it_after = 0, parsed_int_value = 0, parsed_double_value = 0,
              parsed_has_decimal = False\<rparr>
         | Some p \<Rightarrow>
             (if number_digits p = 0 then
                \<lparr>it_after = 0, parsed_int_value = int_result p, parsed_double_value = 0,
                 parsed_has_decimal = has_decimal p\<rparr>
              else
                (let r = int64 (int_result p * sign)
                 in \<lparr>it_after = it p, parsed_int_value = r,
                     parsed_double_value =
                       real_of_int r
                       + real_of_int (decimal_result p) * 1 / real_of_int (decimal_result_denominator p),
                     parsed_has_decimal = has_decimal p\<rparr>)))"

fun consume_prefix :: "char32 set \<Rightarrow> UnicodeText \<Rightarrow> nat \<Rightarrow> nat" where
  "consume_prefix allowed [] n = n"
| "consume_prefix allowed (c # cs) n =
     (if c \<notin> allowed then n else consume_prefix allowed cs (n + 1))"

text \<open>The suffix loop of \<open>ParseNumber\<close>: \<open>valid_suffix\<close> and the allowed suffix codepoints
  counted.\<close>

fun consume_suffix :: "char32 set \<Rightarrow> char32 set \<Rightarrow> UnicodeText \<Rightarrow> int \<Rightarrow> bool \<times> int" where
  "consume_suffix allowed ignored [] n = (True, n)"
| "consume_suffix allowed ignored (c # cs) n =
     (if c \<in> allowed then consume_suffix allowed ignored cs (n + 1)
      else if c \<notin> ignored then (False, n)
      else consume_suffix allowed ignored cs n)"

record number_result =
  res_int :: int
  res_double :: real
  res_has_decimal :: bool
  num_prefix_codepoints :: int
  num_suffix_codepoints :: int

text \<open>\<open>NumberAnnotator::ParseNumber\<close>: \<open>None\<close> is \<open>false\<close>, otherwise the values written
  through the pointers.\<close>

definition ParseNumber :: "externals \<Rightarrow> NumberAnnotator \<Rightarrow> UnicodeText \<Rightarrow> number_result option" where
  "ParseNumber ext ann text =
     (let original_span = (0, int (length text));
          stripped_span =
            StripBoundaryCodepointsSets ext text original_span
              (ignored_prefix_span_boundary_codepoints ann)
              (ignored_suffix_span_boundary_codepoints ann);
          num_stripped_end = snd original_span - snd stripped_span;
          body = drop (nat (fst stripped_span)) (take (nat (int (length text) - num_stripped_end)) text);
          n = consume_prefix (allowed_prefix_codepoints ann) body 0;
          r = ConsumeAndParseNumber (drop n body)
      in if it_after r = 0 then None
         else
           (let (valid_suffix, num_suffix) =
                  consume_suffix (allowed_suffix_codepoints ann)
                    (ignored_suffix_span_boundary_codepoints ann)
                    (drop (it_after r) (drop n body)) 0
            in if valid_suffix
               then Some \<lparr>res_int = parsed_int_value r, res_double = parsed_double_value r,
                          res_has_decimal = parsed_has_decimal r,
                          num_prefix_codepoints = fst stripped_span + int n,
                          num_suffix_codepoints = num_suffix + num_stripped_end\<rparr>
               else None))"

text \<open>\<open>GetPercentSuffixLength\<close>: the codepoints of the longest dictionary piece that
  starts at codepoint \<open>index_codepoints\<close>, or \<open>-1\<close>.\<close>

definition GetPercentSuffixLength :: "externals \<Rightarrow> UnicodeText \<Rightarrow> int \<Rightarrow> int" where
  "GetPercentSuffixLength ext context index_codepoints =
     (if index_codepoints \<ge> int (length context) then - 1
      else
        (let suffix_context = ToUTF8String ext (drop (nat index_codepoints) context);
             match_length = LongestPrefixMatch ext suffix_context
         in if match_length = - 1 then match_length
            else int (length (UTF8ToUnicodeText ext (take (nat match_length) suffix_context)))))"

text \<open>The body of the loop of \<open>FindPercentages\<close> for one element of the vector.\<close>

definition FindPercentage :: "externals \<Rightarrow> NumberAnnotator \<Rightarrow> UnicodeText \<Rightarrow> AnnotatedSpan \<Rightarrow> AnnotatedSpan" where
  "FindPercentage ext ann context res =
     (if classification res = [] \<or> collection (hd (classification res)) \<noteq> Collections_Number
      then res
      else
        (let match_length = GetPercentSuffixLength ext context (snd (span res))
         in if match_length > 0
            then res\<lparr>classification :=
                       (hd (classification res))
                         \<lparr>collection := Collections_Percentage,
                          priority_score := percentage_priority_score (options ann)\<rparr>
                       # tl (classification res),
                     span := (fst (span res), snd (span res) + match_length)\<rparr>
            else res))"

fun FindPercentages :: "externals \<Rightarrow> NumberAnnotator \<Rightarrow> UnicodeText \<Rightarrow> AnnotatedSpan list \<Rightarrow> AnnotatedSpan list" where
  "FindPercentages ext ann context [] = []"
| "FindPercentages ext ann context (res # rest) =
     FindPercentage ext ann context res # FindPercentages ext ann context rest"

text \<open>The loop of \<open>FindAll\<close> over the tokens, appending to \<open>result\<close>.\<close>

fun annotate_tokens :: "externals \<Rightarrow> NumberAnnotator \<Rightarrow> Token list \<Rightarrow> AnnotatedSpan list \<Rightarrow> AnnotatedSpan list" where
  "annotate_tokens ext ann [] result = result"
| "annotate_tokens ext ann (token # tokens) result =
     (case ParseNumber ext ann (UTF8ToUnicodeText ext (tok_value token)) of
        None \<Rightarrow> annotate_tokens ext ann tokens result
      | Some r \<Rightarrow>
          annotate_tokens ext ann tokens
            (result @
              [\<lparr>span = (tok_start token + num_prefix_codepoints r,
                        tok_end token - num_suffix_codepoints r),
                classification =
                  [\<lparr>collection = Collections_Number, score = opt_score (options ann),
                    priority_score =
                      (if res_has_decimal r then float_number_priority_score (options ann)
                       else opt_priority_score (options ann)),
                    numeric_value = res_int r, numeric_double_value = res_double r\<rparr>]\<rparr>]))"

definition FindAll :: "externals \<Rightarrow> NumberAnnotator \<Rightarrow> UnicodeText \<Rightarrow> nat \<Rightarrow> AnnotatedSpan list \<Rightarrow> AnnotatedSpan list" where
  "FindAll ext ann context annotation_usecase result =
     (if \<not> enabled (options ann)
         \<or> (push_bit annotation_usecase 1) AND enabled_annotation_usecases (options ann) = 0
      then result
      else
        (let result' = annotate_tokens ext ann (Tokenize ext context) result
         in if enable_percentage (options ann)
            then FindPercentages ext ann context result'
            else result'))"

section \<open>LookupEngine\<close>

record LookupEngine =
  collection_name :: string
  entries :: "ClassificationResult list"
  ngram_to_entry_index :: "string \<rightharpoonup> int list"

record stripped =
  stripped_ngram :: string
  after_strip_start_it :: CodepointIndex
  after_strip_end_it :: CodepointIndex
  stripped_span :: CodepointSpan

text \<open>\<open>StripBoundaryCodepointsAndNormalize\<close>: the returned string and the values left in
  the two iterators and in \<open>*span\<close>.\<close>

definition StripBoundaryCodepointsAndNormalize ::
  "externals \<Rightarrow> UnicodeText \<Rightarrow> CodepointIndex \<Rightarrow> CodepointIndex \<Rightarrow> CodepointSpan \<Rightarrow> stripped" where
  "StripBoundaryCodepointsAndNormalize ext text start_it end_it sp =
     (let s = StripBoundaryCodepoints ext text start_it end_it sp;
          start_it' = start_it + (fst s - fst sp);
          end_it' = end_it + (snd s - snd sp)
      in \<lparr>stripped_ngram =
            (if fst s = snd s then []
             else fst (Normalize ext (UTF8Substring ext text start_it' end_it') True False)),
          after_strip_start_it = start_it', after_strip_end_it = end_it', stripped_span = s\<rparr>)"

text \<open>The posting list that \<open>ngram_to_entry_index_[key]\<close> refers to: an absent key is
  inserted with an empty vector.\<close>

definition posting_list :: "(string \<rightharpoonup> int list) \<Rightarrow> string \<Rightarrow> int list" where
  "posting_list m key = (case m key of None \<Rightarrow> [] | Some entry_indices \<Rightarrow> entry_indices)"

text \<open>The key under which \<open>AddEntry\<close> files one n-gram, if any: the n-gram is skipped when
  it is empty, when it is not valid UTF-8, and when nothing is left of it after stripping and
  normalization.\<close>

definition ngram_key :: "externals \<Rightarrow> string \<Rightarrow> string option" where
  "ngram_key ext ngram =
     (if ngram = [] then None
      else
        (let ngram_unicode = UTF8ToUnicodeText ext ngram
         in if \<not> is_valid ext ngram then None
            else
              (let stripped_ngram =
                     stripped_ngram
                       (StripBoundaryCodepointsAndNormalize ext ngram_unicode 0
                          (int (length ngram_unicode)) (0, int (length ngram_unicode)))
               in if stripped_ngram \<noteq> [] then Some stripped_ngram else None)))"

text \<open>The body of the loop of \<open>AddEntry\<close> for one n-gram.\<close>

definition add_ngram ::
  "externals \<Rightarrow> int \<Rightarrow> (string \<rightharpoonup> int list) \<Rightarrow> string \<Rightarrow> (string \<rightharpoonup> int list)" where
  "add_ngram ext entry_index m ngram =
     (case ngram_key ext ngram of
        None \<Rightarrow> m
      | Some key \<Rightarrow>
          (let entry_indices = posting_list m key
           in if entry_indices = [] \<or> last entry_indices \<noteq> entry_index
              then m(key \<mapsto> entry_indices @ [entry_index])
              else m(key \<mapsto> entry_indices)))"

fun add_ngrams ::
  "externals \<Rightarrow> int \<Rightarrow> (string \<rightharpoonup> int list) \<Rightarrow> string list \<Rightarrow> (string \<rightharpoonup> int list)" where
  "add_ngrams ext entry_index m [] = m"
| "add_ngrams ext entry_index m (ngram # ngrams) =
     add_ngrams ext entry_index (add_ngram ext entry_index m ngram) ngrams"

definition AddEntry :: "externals \<Rightarrow> LookupEngine \<Rightarrow> string list \<Rightarrow> ClassificationResult \<Rightarrow> LookupEngine" where
  "AddEntry ext eng ngrams entry =
     (let entry_index = int (length (entries eng))
      in eng\<lparr>entries := entries eng @ [entry],
              ngram_to_entry_index :=
                add_ngrams ext entry_index (ngram_to_entry_index eng) ngrams\<rparr>)"

text \<open>The loop of \<open>FindTokenMatches\<close> over the posting list of the token.\<close>

fun collect_matches ::
  "LookupEngine \<Rightarrow> int \<Rightarrow> int list \<Rightarrow> int set \<Rightarrow> ClassificationResult list
     \<Rightarrow> int set \<times> ClassificationResult list" where
  "collect_matches eng max_num_matches [] result_index results = (result_index, results)"
| "collect_matches eng max_num_matches (entry_idx # rest) result_index results =
     (if int (length results) = max_num_matches then (result_index, results)
      else if entry_idx \<in> result_index
      then collect_matches eng max_num_matches rest result_index results
      else collect_matches eng max_num_matches rest (insert entry_idx result_index)
             (results @ [(entries eng ! nat entry_idx)\<lparr>collection := collection_name eng\<rparr>]))"

definition FindTokenMatches ::
  "LookupEngine \<Rightarrow> string \<Rightarrow> int \<Rightarrow> int set \<Rightarrow> ClassificationResult list
     \<Rightarrow> int set \<times> ClassificationResult list" where
  "FindTokenMatches eng token max_num_matches result_index results =
     (case ngram_to_entry_index eng token of
        None \<Rightarrow> (result_index, results)
      | Some entry_indices \<Rightarrow>
          collect_matches eng max_num_matches entry_indices result_index results)"

text \<open>\<open>FindMatches\<close>, the virtual method: the results and the value left in \<open>*span\<close>.\<close>

type_synonym find_matches =
  "int \<Rightarrow> CodepointIndex \<Rightarrow> CodepointIndex \<Rightarrow> CodepointSpan
     \<Rightarrow> ClassificationResult list \<times> CodepointSpan"

definition FindMatches :: "externals \<Rightarrow> LookupEngine \<Rightarrow> UnicodeText \<Rightarrow> find_matches" where
  "FindMatches ext eng text max_num_matches start_it end_it sp =
     (let s = StripBoundaryCodepointsAndNormalize ext text start_it end_it sp
      in (snd (FindTokenMatches eng (stripped_ngram s) max_num_matches {} []), stripped_span s))"

definition ClassifyTextInternal ::
  "externals \<Rightarrow> LookupEngine \<Rightarrow> UnicodeText \<Rightarrow> CodepointSpan \<Rightarrow> ClassificationResult option" where
  "ClassifyTextInternal ext eng context_unicode selection_indices =
     (let start_it = fst selection_indices;
          end_it = start_it + (snd selection_indices - fst selection_indices)
      in case fst (FindMatches ext eng context_unicode 1 start_it end_it selection_indices) of
           [] \<Rightarrow> None
         | r # rs \<Rightarrow> Some r)"

text \<open>The two \<open>while\<close> loops that move a codepoint index and its iterator forward to a
  token boundary.\<close>

function advance ::
  "CodepointIndex \<Rightarrow> CodepointIndex \<Rightarrow> CodepointIndex \<Rightarrow> CodepointIndex \<times> CodepointIndex" where
  "advance codepoint_idx iter target =
     (if codepoint_idx < target then advance (codepoint_idx + 1) (iter + 1) target
      else (codepoint_idx, iter))"
  by pat_completeness auto
termination
  by (relation "measure (\<lambda>(codepoint_idx, iter, target). nat (target - codepoint_idx))") auto

declare advance.simps [simp del]

text \<open>What a 32-bit \<open>int\<close> holds after an addition whose exact result is \<open>x\<close>.\<close>

definition int32 :: "int \<Rightarrow> int" where
  "int32 x = (x + 2 ^ 31) mod 2 ^ 32 - 2 ^ 31"

text \<open>The loop over the possible ends of a match that starts at token \<open>start\<close>. The three
  vectors \<open>end_candidates\<close>, \<open>end_codepoint_idx_candidates\<close> and \<open>end_it_candidates\<close> grow
  together and are one list of triples.\<close>

type_synonym candidate = "nat \<times> CodepointIndex \<times> CodepointIndex"

function collect_ends ::
  "Token list \<Rightarrow> nat \<Rightarrow> int \<Rightarrow> nat \<Rightarrow> CodepointIndex \<Rightarrow> CodepointIndex \<Rightarrow> candidate list
     \<Rightarrow> candidate list" where
  "collect_ends tokens start max_num_tokens end_tok end_codepoint_idx end_it candidates =
     (if int end_tok \<le> int32 (int start + max_num_tokens) \<and> end_tok \<le> length tokens then
        (let (idx, iter) = advance end_codepoint_idx end_it (tok_end (tokens ! (end_tok - 1)))
         in collect_ends tokens start max_num_tokens (end_tok + 1) idx iter
              (candidates @ [(end_tok, idx, iter)]))
      else candidates)"
  by pat_completeness auto
termination
  by (relation "measure (\<lambda>(tokens, start, max_num_tokens, end_tok, rest). Suc (length tokens) - end_tok)")
     auto

declare collect_ends.simps [simp del]

text \<open>What \<open>FindMatches\<close> returns for the window from the start token to one candidate
  end.\<close>

definition window_matches ::
  "find_matches \<Rightarrow> int \<Rightarrow> CodepointIndex \<Rightarrow> CodepointIndex \<Rightarrow> candidate
     \<Rightarrow> ClassificationResult list \<times> CodepointSpan" where
  "window_matches fm max_num_matches start_codepoint_idx start_it c =
     fm max_num_matches start_it (snd (snd c)) (start_codepoint_idx, fst (snd c))"

text \<open>The backwards loop over the candidates, given last candidate first: the annotated
  span pushed and the new \<open>minimum_start\<close>, or \<open>None\<close> when no window matches.\<close>

fun longest_match ::
  "find_matches \<Rightarrow> int \<Rightarrow> CodepointIndex \<Rightarrow> CodepointIndex \<Rightarrow> candidate list
     \<Rightarrow> (AnnotatedSpan \<times> nat) option" where
  "longest_match fm max_num_matches start_codepoint_idx start_it [] = None"
| "longest_match fm max_num_matches start_codepoint_idx start_it (c # cs) =
     (let (cls, stripped_codepoint_span) =
            window_matches fm max_num_matches start_codepoint_idx start_it c
      in if cls \<noteq> []
         then Some (\<lparr>span = stripped_codepoint_span, classification = cls\<rparr>, fst c)
         else longest_match fm max_num_matches start_codepoint_idx start_it cs)"

record chunk_state =
  cur_codepoint_idx :: CodepointIndex
  cur_it :: CodepointIndex
  minimum_start :: nat
  spans :: "AnnotatedSpan list"

text \<open>The body of the loop of \<open>ChunkInternal\<close> over the start tokens, on the variables
  \<open>start_codepoint_idx\<close>, \<open>start_it\<close>, \<open>minimum_start\<close> and \<open>*result\<close>.\<close>

definition chunk_step ::
  "find_matches \<Rightarrow> Token list \<Rightarrow> int \<Rightarrow> int \<Rightarrow> nat \<Rightarrow> chunk_state \<Rightarrow> chunk_state" where
  "chunk_step fm tokens max_num_tokens max_num_matches start st =
     (if start < minimum_start st then st
      else
        (let (idx, iter) =
               advance (cur_codepoint_idx st) (cur_it st) (tok_start (tokens ! start));
             candidates = collect_ends tokens start max_num_tokens (start + 1) idx iter []
         in case longest_match fm max_num_matches idx iter (rev candidates) of
              None \<Rightarrow> st\<lparr>cur_codepoint_idx := idx, cur_it := iter\<rparr>
            | Some (annotated_span, end_tok) \<Rightarrow>
                st\<lparr>cur_codepoint_idx := idx, cur_it := iter, minimum_start := end_tok,
                    spans := spans st @ [annotated_span]\<rparr>))"

function chunk_loop ::
  "find_matches \<Rightarrow> Token list \<Rightarrow> int \<Rightarrow> int \<Rightarrow> nat \<Rightarrow> chunk_state \<Rightarrow> chunk_state" where
  "chunk_loop fm tokens max_num_tokens max_num_matches start st =
     (if start < length tokens
      then chunk_loop fm tokens max_num_tokens max_num_matches (start + 1)
             (chunk_step fm tokens max_num_tokens max_num_matches start st)
      else st)"
  by pat_completeness auto
termination
  by (relation "measure (\<lambda>(fm, tokens, max_num_tokens, max_num_matches, start, st). length tokens - start)")
     auto

declare chunk_loop.simps [simp del]

text \<open>\<open>ChunkInternal\<close>, with the \<open>FindMatches\<close> it dispatches to as a parameter; the
  spans are appended to \<open>result\<close>.\<close>

definition ChunkInternal ::
  "find_matches \<Rightarrow> Token list \<Rightarrow> int \<Rightarrow> int \<Rightarrow> AnnotatedSpan list \<Rightarrow> AnnotatedSpan list" where
  "ChunkInternal fm tokens max_num_tokens max_num_matches result =
     spans (chunk_loop fm tokens max_num_tokens max_num_matches 0
              \<lparr>cur_codepoint_idx = 0, cur_it = 0, minimum_start = 0, spans = result\<rparr>)"

section \<open>An instance of the collaborators\<close>

text \<open>
  Modelled from the spec: the \<open>UnicodeText\<close> codec, the boundary stripper, the tokenizer,
  the percentage-suffix dictionary and the normalization table are outside the sources.
  This instance runs the model on concrete inputs: the standard UTF-8 encoding, the
  lower-casing of \<open>unilib-dummy.cc\<close> (\<open>std::tolower\<close>, ASCII letters only), a stripper that
  removes the given codepoints from each end of a span, a tokenizer that splits at
  spaces, a dictionary that holds the piece \<open>%\<close>, and a table with one ligature.
\<close>

fun decode_utf8 :: "string \<Rightarrow> UnicodeText" where
  "decode_utf8 [] = []"
| "decode_utf8 (b # bs) =
     (let n = GetNumBytesForUTF8Char b; trail = map (\<lambda>c. (of_char c :: nat) mod 64) (take (n - 1) bs)
      in (if n = 1 then of_char b
          else if n = 2 then foldl (\<lambda>a t. a * 64 + t) ((of_char b :: nat) mod 32) trail
          else if n = 3 then foldl (\<lambda>a t. a * 64 + t) ((of_char b :: nat) mod 16) trail
          else foldl (\<lambda>a t. a * 64 + t) ((of_char b :: nat) mod 8) trail)
         # decode_utf8 (drop (n - 1) bs))"

definition encode_utf8 :: "char32 \<Rightarrow> string" where
  "encode_utf8 cp =
     (if cp < 0x80 then [char_of cp]
      else if cp < 0x800 then [char_of (0xC0 + cp div 64), char_of (0x80 + cp mod 64)]
      else if cp < 0x10000 then
        [char_of (0xE0 + cp div 4096), char_of (0x80 + cp div 64 mod 64),
         char_of (0x80 + cp mod 64)]
      else
        [char_of (0xF0 + cp div 262144), char_of (0x80 + cp div 4096 mod 64),
         char_of (0x80 + cp div 64 mod 64), char_of (0x80 + cp mod 64)])"

fun valid_utf8 :: "string \<Rightarrow> bool" where
  "valid_utf8 [] = True"
| "valid_utf8 (b # bs) =
     (let n = GetNumBytesForUTF8Char b
      in \<not> IsTrailByte b \<and> (of_char b :: nat) < 0xF8 \<and> n - 1 \<le> length bs
         \<and> list_all IsTrailByte (take (n - 1) bs) \<and> valid_utf8 (drop (n - 1) bs))"

definition ascii_tolower :: "char32 \<Rightarrow> char32" where
  "ascii_tolower cp = (if 0x41 \<le> cp \<and> cp \<le> 0x5A then cp + 0x20 else cp)"

definition count_leading :: "char32 set \<Rightarrow> UnicodeText \<Rightarrow> nat" where
  "count_leading S t = length (takeWhile (\<lambda>c. c \<in> S) t)"

definition strip_span :: "char32 set \<Rightarrow> char32 set \<Rightarrow> UnicodeText \<Rightarrow> CodepointSpan \<Rightarrow> CodepointSpan" where
  "strip_span pre suf t sp =
     (if snd sp \<le> fst sp \<or> fst sp < 0 \<or> t = [] then sp
      else
        (let start_offset = int (count_leading pre t);
             end_offset = int (count_leading suf (rev t))
         in if fst sp + start_offset < snd sp - end_offset
            then (fst sp + start_offset, snd sp - end_offset)
            else (fst sp, fst sp)))"

fun split_spaces :: "UnicodeText \<Rightarrow> int \<Rightarrow> UnicodeText \<Rightarrow> int \<Rightarrow> Token list" where
  "split_spaces [] pos cur cur_start =
     (if cur = [] then []
      else [\<lparr>tok_value = concat (map encode_utf8 cur), tok_start = cur_start, tok_end = pos,
             is_padding = False\<rparr>])"
| "split_spaces (c # cs) pos cur cur_start =
     (if c = 0x20 then
        (if cur = [] then split_spaces cs (pos + 1) [] (pos + 1)
         else \<lparr>tok_value = concat (map encode_utf8 cur), tok_start = cur_start, tok_end = pos,
                is_padding = False\<rparr> # split_spaces cs (pos + 1) [] (pos + 1))
      else split_spaces cs (pos + 1) (cur @ [c]) cur_start)"

definition percent_prefix_match :: "string \<Rightarrow> int" where
  "percent_prefix_match s = (if take 1 s = ''%'' then 1 else - 1)"

definition ligature_table :: "string \<rightharpoonup> string" where
  "ligature_table = [[CHR 0xEF, CHR 0xAC, CHR 0x81] \<mapsto> ''fi'']"

definition sample_externals :: externals where
  "sample_externals =
     \<lparr>is_valid = valid_utf8,
      UTF8ToUnicodeText = decode_utf8,
      push_back = encode_utf8,
      ToLower = ascii_tolower,
      GetNormalizationTable = ligature_table,
      StripBoundaryCodepoints = (\<lambda>t it_first it_last sp.
         strip_span {0x20, 0x2E} {0x20, 0x2E} (drop (nat it_first) (take (nat it_last) t)) sp),
      StripBoundaryCodepointsSets = (\<lambda>t sp pre suf.
         strip_span pre suf (drop (nat (fst sp)) (take (nat (snd sp)) t)) sp),
      Tokenize = (\<lambda>t. split_spaces t 0 [] 0),
      LongestPrefixMatch = percent_prefix_match\<rparr>"

text \<open>An annotator that allows \<open>$\<close> before and \<open>%\<close> after a number and ignores
  brackets, \<open>!\<close> and \<open>#\<close> at the boundaries.\<close>

definition sample_annotator :: NumberAnnotator where
  "sample_annotator =
     \<lparr>options =
        \<lparr>enabled = True, enabled_annotation_usecases = 3, opt_score = 1,
         opt_priority_score = 0, float_number_priority_score = 0,
         percentage_priority_score = 1, enable_percentage = True\<rparr>,
      allowed_prefix_codepoints = {0x24},
      allowed_suffix_codepoints = {0x25},
      ignored_prefix_span_boundary_codepoints = {0x28},
      ignored_suffix_span_boundary_codepoints = {0x29, 0x21, 0x23}\<rparr>"

text \<open>The engine as its constructor leaves it, and an entry to add.\<close>

definition new_engine :: "string \<Rightarrow> LookupEngine" where
  "new_engine c = \<lparr>collection_name = c, entries = [], ngram_to_entry_index = Map.empty\<rparr>"

definition sample_entry :: "int \<Rightarrow> ClassificationResult" where
  "sample_entry n =
     \<lparr>collection = [], score = 1, priority_score = 0, numeric_value = n,
      numeric_double_value = 0\<rparr>"

definition sample_engine :: LookupEngine where
  "sample_engine =
     AddEntry sample_externals
       (AddEntry sample_externals (new_engine ''city'') [''New York'', ''NYC''] (sample_entry 1))
       [''new york city''] (sample_entry 2)"

definition sample_context :: UnicodeText where
  "sample_context = decode_utf8 ''in New York City. nyc''"

definition sample_tokens :: "Token list" where
  "sample_tokens = Tokenize sample_externals sample_context"

section \<open>Predicates of the statements\<close>

text \<open>A complete character: a non-empty run of bytes that is as long as its first byte
  announces.\<close>

definition complete_char :: "string \<Rightarrow> bool" where
  "complete_char c = (c \<noteq> [] \<and> length c = Utf8CharLength (hd c))"

text \<open>The table, the lower-casing and the codec are closed under case-folded
  normalization: every normalized character is a run of complete characters that normalize
  to themselves.\<close>

definition fold_closed :: "externals \<Rightarrow> bool" where
  "fold_closed ext =
     (\<forall>c. complete_char c \<longrightarrow>
        (\<exists>ds. normalized_chars ext True c = concat ds
           \<and> list_all (\<lambda>d. complete_char d \<and> normalized_chars ext True d = d) ds))"

text \<open>The engine's invariant: every index in a posting list is a position of the entry
  store.\<close>

definition indices_in_range :: "LookupEngine \<Rightarrow> bool" where
  "indices_in_range eng =
     (\<forall>key entry_indices. ngram_to_entry_index eng key = Some entry_indices \<longrightarrow>
        list_all (\<lambda>entry_idx. 0 \<le> entry_idx \<and> entry_idx < int (length (entries eng))) entry_indices)"

text \<open>What the loop over the ends keeps true of a candidate, for a match that starts at
  token \<open>start\<close> and codepoint \<open>lo\<close>: its end token lies after \<open>start\<close>, and its end
  codepoint is \<open>lo\<close> or the end of one of the tokens of the window.\<close>

definition candidate_ok :: "Token list \<Rightarrow> nat \<Rightarrow> CodepointIndex \<Rightarrow> candidate \<Rightarrow> bool" where
  "candidate_ok tokens start lo c =
     (start < fst c \<and> fst c \<le> length tokens \<and> lo \<le> fst (snd c)
      \<and> (fst (snd c) = lo \<or> (\<exists>k. start \<le> k \<and> k < fst c \<and> fst (snd c) = tok_end (tokens ! k))))"


text \<open>The spans of a vector do not overlap: one recorded before another ends at or before
  the start of the other.\<close>

definition no_overlap :: "AnnotatedSpan list \<Rightarrow> bool" where
  "no_overlap rs = sorted_wrt (\<lambda>a b. snd (span a) \<le> fst (span b)) rs"

text \<open>The tokens are ordered and do not overlap: each ends at or before the start of every
  later one.\<close>

definition tokens_ordered :: "Token list \<Rightarrow> bool" where
  "tokens_ordered tokens = sorted_wrt (\<lambda>a b. tok_end a \<le> tok_start b) tokens"

text \<open>A \<open>FindMatches\<close> that leaves in \<open>*span\<close> a span inside the one it was given.\<close>

definition shrinks :: "find_matches \<Rightarrow> bool" where
  "shrinks fm =
     (\<forall>n a b sp. fst sp \<le> snd sp \<longrightarrow>
        fst sp \<le> fst (snd (fm n a b sp)) \<and> snd (snd (fm n a b sp)) \<le> snd sp)"

text \<open>The invariant of the loop of \<open>ChunkInternal\<close> before start token \<open>start\<close>: the spans
  recorded so far do not overlap, and each of them ends at or before \<open>start_codepoint_idx\<close>
  or at or before the start of every token that can still start a match.\<close>

definition chunk_inv :: "Token list \<Rightarrow> nat \<Rightarrow> chunk_state \<Rightarrow> bool" where
  "chunk_inv tokens start st =
     (no_overlap (spans st)
      \<and> (\<forall>r \<in> set (spans st).
            snd (span r) \<le> cur_codepoint_idx st
            \<or> (\<forall>s. start \<le> s \<and> minimum_start st \<le> s \<and> s < length tokens
                  \<longrightarrow> snd (span r) \<le> tok_start (tokens ! s))))"

section \<open>Properties of the normalizer\<close>

lemma Normalize_loop_indices:
  "\<exists>out' oi'. Normalize_loop ext fold_case inp csi out (Some oi) = (out', Some oi')
      \<and> length oi' + length out = length out' + length oi"
proof (induction ext fold_case inp csi out "Some oi" arbitrary: oi rule: Normalize_loop.induct)
  case (1 ext fold_case input_left csi out)
  show ?case
  proof (cases "0 < length input_left \<and> \<not> Utf8CharLength (hd input_left) > length input_left")
    case False
    then show ?thesis
      by (subst Normalize_loop.simps) (auto simp: Let_def)
  next
    case True
    let ?n = "Utf8CharLength (hd input_left)"
    let ?nc = "normalized_chars ext fold_case (take ?n input_left)"
    from True "1.hyps" [of ?n "take ?n input_left" ?nc "oi @ replicate (length ?nc) csi"]
    obtain out' oi' where
      step: "Normalize_loop ext fold_case (drop ?n input_left) (csi + ?n) (out @ ?nc)
               (Some (oi @ replicate (length ?nc) csi)) = (out', Some oi')"
      and len: "length oi' + length (out @ ?nc) = length out' + length (oi @ replicate (length ?nc) csi)"
      by auto
    have "Normalize_loop ext fold_case input_left csi out (Some oi) = (out', Some oi')"
      using True step by (subst Normalize_loop.simps) (simp add: Let_def)
    moreover have "length oi' + length out = length out' + length oi"
      using len by simp
    ultimately show ?thesis by blast
  qed
qed

text \<open>
  C5. When the index map is requested, \<open>Normalize\<close> returns one: it has one entry more
  than the output has bytes, and its last entry is the byte length of the input.
\<close>

theorem Normalize_index_map_length:
  "\<exists>index_map. snd (Normalize ext x fold_case True) = Some index_map
     \<and> length index_map = length (fst (Normalize ext x fold_case True)) + 1
     \<and> last index_map = length x"
proof -
  obtain out' oi' where
    loop: "Normalize_loop ext fold_case x 0 [] (Some []) = (out', Some oi')"
    and len: "length oi' + length ([]::string) = length out' + length ([]::nat list)"
    using Normalize_loop_indices [of ext fold_case x 0 "[]" "[]"] by blast
  then show ?thesis
    by (simp add: Normalize_def)
qed

lemma Normalize_loop_output:
  "fst (Normalize_loop ext fold_case inp csi out oi)
     = out @ fst (Normalize_loop ext fold_case inp 0 [] None)"
proof (induction "length inp" arbitrary: inp csi out oi rule: less_induct)
  case less
  show ?case
  proof (cases "0 < length inp \<and> \<not> Utf8CharLength (hd inp) > length inp")
    case False
    then show ?thesis
      by (subst (1 2) Normalize_loop.simps) (auto simp: Let_def)
  next
    case True
    let ?n = "Utf8CharLength (hd inp)"
    let ?nc = "normalized_chars ext fold_case (take ?n inp)"
    have shorter: "length (drop ?n inp) < length inp"
      using True Utf8CharLength_pos [of "hd inp"] by simp
    have l: "fst (Normalize_loop ext fold_case inp csi out oi)
               = fst (Normalize_loop ext fold_case (drop ?n inp) (csi + ?n) (out @ ?nc)
                   (map_option (\<lambda>oi. oi @ replicate (length ?nc) csi) oi))"
      using True by (subst Normalize_loop.simps) (simp add: Let_def)
    have r: "fst (Normalize_loop ext fold_case inp 0 [] None)
               = fst (Normalize_loop ext fold_case (drop ?n inp) (0 + ?n) ([] @ ?nc) None)"
      using True by (subst Normalize_loop.simps) (simp add: Let_def)
    show ?thesis
      unfolding l r
      by (subst (1 2) less.hyps [OF shorter]) simp
  qed
qed

lemma Normalize_output:
  "fst (Normalize ext x fold_case want_indices) = fst (Normalize_loop ext fold_case x 0 [] None)"
  using Normalize_loop_output [of ext fold_case x 0 "[]" "if want_indices then Some [] else None"]
  by (simp add: Normalize_def split_beta)

lemma Normalize_loop_char:
  assumes "complete_char c"
  shows "fst (Normalize_loop ext fold_case (c @ rest) 0 [] None)
           = normalized_chars ext fold_case c @ fst (Normalize_loop ext fold_case rest 0 [] None)"
proof -
  from assms obtain b bs where c: "c = b # bs" and n: "Utf8CharLength b = Suc (length bs)"
    by (cases c) (auto simp: complete_char_def)
  have "fst (Normalize_loop ext fold_case (c @ rest) 0 [] None)
          = fst (Normalize_loop ext fold_case rest (Suc (length bs)) (normalized_chars ext fold_case c) None)"
    by (subst Normalize_loop.simps) (simp add: c n Let_def)
  then show ?thesis
    by (simp add: Normalize_loop_output [of ext fold_case rest "Suc (length bs)" _ None])
qed

lemma Normalize_loop_chars:
  "list_all complete_char cs \<Longrightarrow>
   fst (Normalize_loop ext fold_case (concat cs @ t) 0 [] None)
     = concat (map (normalized_chars ext fold_case) cs)
       @ fst (Normalize_loop ext fold_case t 0 [] None)"
  by (induction cs) (simp_all add: Normalize_loop_char)

lemma Normalize_loop_incomplete:
  "t = [] \<or> length t < Utf8CharLength (hd t) \<Longrightarrow>
   fst (Normalize_loop ext fold_case t 0 [] None) = []"
  by (subst Normalize_loop.simps) (auto simp: Let_def)

text \<open>
  C9 (as amended). \<open>Normalize\<close> is total and signals no error. Its input is a run of
  complete characters followed by a tail that is empty or shorter than its first byte
  announces; the output is the normalization of the complete characters, one by one, and
  the tail is dropped.
\<close>

theorem Normalize_drops_incomplete_tail:
  assumes "list_all complete_char cs"
    and "t = [] \<or> length t < Utf8CharLength (hd t)"
  shows "fst (Normalize ext (concat cs @ t) fold_case want_indices)
           = concat (map (normalized_chars ext fold_case) cs)"
  using assms
  by (simp add: Normalize_output Normalize_loop_chars Normalize_loop_incomplete)

theorem Normalize_drops_incomplete_tail_witness:
  "list_all complete_char [''a'', [CHR 0xC3, CHR 0xA9]]
   \<and> length [CHR 0xE2, CHR 0x82] < Utf8CharLength (hd [CHR 0xE2, CHR 0x82])
   \<and> fst (Normalize sample_externals
         (concat [''a'', [CHR 0xC3, CHR 0xA9]] @ [CHR 0xE2, CHR 0x82]) True False)
       = [CHR ''a'', CHR 0xC3, CHR 0xA9]"
proof -
  have h1: "list_all complete_char [''a'', [CHR 0xC3, CHR 0xA9]]"
    by code_simp
  have h2: "length [CHR 0xE2, CHR 0x82] < Utf8CharLength (hd [CHR 0xE2, CHR 0x82])"
    by code_simp
  have v: "concat (map (normalized_chars sample_externals True) [''a'', [CHR 0xC3, CHR 0xA9]])
             = [CHR ''a'', CHR 0xC3, CHR 0xA9]"
    by code_simp
  from Normalize_drops_incomplete_tail [OF h1 disjI2 [OF h2], of sample_externals True False]
  have "fst (Normalize sample_externals
          (concat [''a'', [CHR 0xC3, CHR 0xA9]] @ [CHR 0xE2, CHR 0x82]) True False)
        = [CHR ''a'', CHR 0xC3, CHR 0xA9]"
    unfolding v .
  with h1 h2 show ?thesis by blast
qed

text \<open>
  C9 (as stated) fails: a lone trail byte is ill-formed UTF-8, yet \<open>Utf8CharLength\<close> takes it
  as a character of one byte, and it and the bytes after it reach the output.
\<close>

theorem Normalize_keeps_stray_trail_byte:
  "\<not> valid_utf8 [CHR 0x80, CHR ''a''] \<and> IsTrailByte (CHR 0x80)
   \<and> fst (Normalize sample_externals [CHR 0x80, CHR ''a''] False False) = [CHR 0x80, CHR ''a'']"
  by (simp add: Normalize_def Normalize_loop.simps Utf8CharLength_def IsTrailByte_def
      GetNumBytesForUTF8Char_def normalized_chars_def sample_externals_def ligature_table_def)

text \<open>Every input is a run of complete characters and a tail that is empty or cut off, so
  every output is the normalization of complete characters.\<close>

lemma split_complete_chars:
  "\<exists>cs t. x = concat cs @ t \<and> list_all complete_char cs
      \<and> (t = [] \<or> length t < Utf8CharLength (hd t))"
proof (induction "length x" arbitrary: x rule: less_induct)
  case less
  show ?case
  proof (cases "x = [] \<or> length x < Utf8CharLength (hd x)")
    case True
    then have "x = concat [] @ x \<and> list_all complete_char []
        \<and> (x = [] \<or> length x < Utf8CharLength (hd x))"
      by simp
    then show ?thesis by blast
  next
    case False
    let ?n = "Utf8CharLength (hd x)"
    from False have x: "x \<noteq> []" and n: "?n \<le> length x" by simp_all
    have c: "complete_char (take ?n x)"
      using x n Utf8CharLength_pos [of "hd x"]
      by (cases x) (auto simp: complete_char_def take_Cons')
    have "length (drop ?n x) < length x"
      using x Utf8CharLength_pos [of "hd x"] by simp
    from less.hyps [OF this] obtain cs t where
      d: "drop ?n x = concat cs @ t" "list_all complete_char cs"
         "t = [] \<or> length t < Utf8CharLength (hd t)"
      by blast
    have "x = concat (take ?n x # cs) @ t"
      using d(1) by (metis append_take_drop_id concat.simps(2) append_assoc)
    with c d(2,3) have "x = concat (take ?n x # cs) @ t \<and> list_all complete_char (take ?n x # cs)
        \<and> (t = [] \<or> length t < Utf8CharLength (hd t))"
      by simp
    then show ?thesis by blast
  qed
qed

lemma Normalize_characters:
  "\<exists>cs. list_all complete_char cs
     \<and> fst (Normalize ext x fold_case w) = concat (map (normalized_chars ext fold_case) cs)"
proof -
  obtain cs t where "x = concat cs @ t" "list_all complete_char cs"
      "t = [] \<or> length t < Utf8CharLength (hd t)"
    using split_complete_chars by blast
  then have "fst (Normalize ext x fold_case w) = concat (map (normalized_chars ext fold_case) cs)"
    by (simp add: Normalize_output Normalize_loop_chars Normalize_loop_incomplete)
  with \<open>list_all complete_char cs\<close> show ?thesis by blast
qed

text \<open>
  Whether a second case-folding pass changes anything is a property of the table, the
  lower-casing and the codec, none of which the loop constrains. The loop itself adds
  nothing to it: when every normalized character is a run of complete characters that
  normalize to themselves, a second pass leaves the output of the first as it is, for
  every input, cut-off input included.
\<close>

lemma Normalize_idempotent_if_closed:
  assumes "fold_closed ext"
  shows "fst (Normalize ext (fst (Normalize ext x True w)) True w') = fst (Normalize ext x True w)"
proof -
  obtain cs where cs: "list_all complete_char cs"
    and out: "fst (Normalize ext x True w) = concat (map (normalized_chars ext True) cs)"
    using Normalize_characters by blast
  have "\<exists>ds. concat (map (normalized_chars ext True) cs) = concat ds
      \<and> list_all (\<lambda>d. complete_char d \<and> normalized_chars ext True d = d) ds"
    using cs
  proof (induction cs)
    case Nil
    have "concat (map (normalized_chars ext True) []) = concat []
        \<and> list_all (\<lambda>d. complete_char d \<and> normalized_chars ext True d = d) []"
      by simp
    then show ?case by blast
  next
    case (Cons c cs)
    then obtain ds where ds: "concat (map (normalized_chars ext True) cs) = concat ds"
        "list_all (\<lambda>d. complete_char d \<and> normalized_chars ext True d = d) ds"
      by auto
    from Cons.prems assms obtain es where es: "normalized_chars ext True c = concat es"
        "list_all (\<lambda>d. complete_char d \<and> normalized_chars ext True d = d) es"
      unfolding fold_closed_def by auto
    have "concat (map (normalized_chars ext True) (c # cs)) = concat (es @ ds)
        \<and> list_all (\<lambda>d. complete_char d \<and> normalized_chars ext True d = d) (es @ ds)"
      using ds es by simp
    then show ?case by blast
  qed
  then obtain ds where ds: "concat (map (normalized_chars ext True) cs) = concat ds"
      "list_all (\<lambda>d. complete_char d \<and> normalized_chars ext True d = d) ds"
    by blast
  from ds(2) have complete: "list_all complete_char ds"
    and fixed: "map (normalized_chars ext True) ds = ds"
    by (induction ds) simp_all
  have "fst (Normalize ext (concat ds @ []) True w') = concat (map (normalized_chars ext True) ds)"
    using complete
    by (simp only: Normalize_output Normalize_loop_chars)
       (simp add: Normalize_loop_incomplete)
  with fixed show ?thesis
    by (simp add: out ds(1))
qed

section \<open>Properties of the number annotator\<close>

lemma decode_utf8_empty: "(decode_utf8 s = []) = (s = [])"
  by (cases s) (simp_all add: Let_def)

lemma percent_prefix_match_le: "percent_prefix_match s \<le> int (length s)"
  by (cases s) (simp_all add: percent_prefix_match_def)

lemma int64_id: "- (2 ^ 63) \<le> x \<Longrightarrow> x < 2 ^ 63 \<Longrightarrow> int64 x = x"
  by (simp add: int64_def)

lemma ParseNextNumericCodepoint_exact:
  assumes "0 \<le> cur" and "cur \<le> INT64_MAX div 10 - 10" and "0x30 \<le> c" and "c \<le> 0x39"
  shows "ParseNextNumericCodepoint c cur = Some (cur * 10 + (int c - 0x30))"
    and "cur * 10 + (int c - 0x30) \<le> INT64_MAX"
proof -
  from assms have b: "0 \<le> cur * 10 + int c - 0x30" "cur * 10 + int c - 0x30 < 2 ^ 63"
    by (simp_all add: INT64_MAX_def)
  then have "int64 (cur * 10 + int c - 0x30) = cur * 10 + int c - 0x30"
    by (intro int64_id) simp_all
  with assms show "ParseNextNumericCodepoint c cur = Some (cur * 10 + (int c - 0x30))"
    by (simp add: ParseNextNumericCodepoint_def)
  from b show "cur * 10 + (int c - 0x30) \<le> INT64_MAX"
    by (simp add: INT64_MAX_def)
qed

lemma ConsumeAndParseNumber_25_nines: "it_after (ConsumeAndParseNumber (replicate 25 0x39)) = 0"
  by code_simp

text \<open>
  C4. A token of 25 digits \<open>9\<close> that the boundary stripper leaves whole, with \<open>9\<close> not an
  allowed prefix codepoint, is not a number: \<open>ParseNumber\<close> returns \<open>false\<close>. The guard
  keeps the accumulator exact: from a non-negative value that passes it, a digit gives
  \<open>10 * value + digit\<close>, which is at most \<open>INT64_MAX\<close>; a value that fails it is left alone.
\<close>

theorem ParseNumber_25_nines_fails:
  assumes "StripBoundaryCodepointsSets ext (replicate 25 0x39) (0, 25)
             (ignored_prefix_span_boundary_codepoints ann)
             (ignored_suffix_span_boundary_codepoints ann) = (0, 25)"
    and "0x39 \<notin> allowed_prefix_codepoints ann"
  shows "ParseNumber ext ann (replicate 25 0x39) = None
     \<and> (\<forall>cur c. 0 \<le> cur \<and> cur \<le> INT64_MAX div 10 - 10 \<and> 0x30 \<le> c \<and> c \<le> 0x39 \<longrightarrow>
           ParseNextNumericCodepoint c cur = Some (cur * 10 + (int c - 0x30))
           \<and> cur * 10 + (int c - 0x30) \<le> INT64_MAX)
     \<and> (\<forall>cur c. INT64_MAX div 10 - 10 < cur \<longrightarrow> ParseNextNumericCodepoint c cur = None)"
proof -
  have nines: "replicate 25 (0x39 :: nat) = 0x39 # replicate 24 0x39"
    by (simp add: eval_nat_numeral)
  have "consume_prefix (allowed_prefix_codepoints ann) (replicate 25 0x39) 0 = 0"
    using assms(2) by (subst nines) simp
  with assms(1) have "ParseNumber ext ann (replicate 25 0x39) = None"
    by (simp add: ParseNumber_def Let_def ConsumeAndParseNumber_25_nines)
  moreover have "\<forall>cur c. INT64_MAX div 10 - 10 < cur \<longrightarrow> ParseNextNumericCodepoint c cur = None"
    by (simp add: ParseNextNumericCodepoint_def)
  ultimately show ?thesis
    using ParseNextNumericCodepoint_exact by blast
qed

theorem ParseNumber_25_nines_fails_witness:
  "0x39 \<notin> allowed_prefix_codepoints sample_annotator
   \<and> ParseNumber sample_externals sample_annotator (replicate 25 0x39) = None
   \<and> ParseNextNumericCodepoint 0x39 99999999999999999 = Some 999999999999999999
   \<and> ParseNextNumericCodepoint 0x39 999999999999999999 = None"
proof -
  have h1: "StripBoundaryCodepointsSets sample_externals (replicate 25 0x39) (0, 25)
             (ignored_prefix_span_boundary_codepoints sample_annotator)
             (ignored_suffix_span_boundary_codepoints sample_annotator) = (0, 25)"
    by code_simp
  have h2: "0x39 \<notin> allowed_prefix_codepoints sample_annotator"
    by (simp add: sample_annotator_def)
  have "ParseNextNumericCodepoint 0x39 99999999999999999 = Some 999999999999999999"
    by code_simp
  moreover have "ParseNextNumericCodepoint 0x39 999999999999999999 = None"
    by code_simp
  ultimately show ?thesis
    using ParseNumber_25_nines_fails [OF h1 h2] h2 by blast
qed

text \<open>
  C3 fails on the code. \<open>number_digits\<close> is incremented for every codepoint the parser
  consumes, a separator included, so the test \<open>number_digits == 0\<close> lets a token through
  that holds no digit at all: the token \<open>.\<close> is parsed as the number 0.
\<close>

theorem ParseNumber_lone_separator:
  "ParseNumber sample_externals sample_annotator [0x2E]
     = Some \<lparr>res_int = 0, res_double = 0, res_has_decimal = False,
             num_prefix_codepoints = 0, num_suffix_codepoints = 0\<rparr>"
  by code_simp

lemma FindPercentages_map:
  "FindPercentages ext ann context result = map (FindPercentage ext ann context) result"
  by (induction result) simp_all

lemma GetPercentSuffixLength_positive:
  assumes codec: "\<forall>s. (UTF8ToUnicodeText ext s = []) = (s = [])"
    and trie: "\<forall>s. LongestPrefixMatch ext s \<le> int (length s)"
    and idx: "0 \<le> idx"
  shows "GetPercentSuffixLength ext context idx =
           (let suffix_context = ToUTF8String ext (drop (nat idx) context);
                match_bytes = LongestPrefixMatch ext suffix_context
            in if 0 < match_bytes
               then int (length (UTF8ToUnicodeText ext (take (nat match_bytes) suffix_context)))
               else GetPercentSuffixLength ext context idx)"
    and "(0 < GetPercentSuffixLength ext context idx) =
           (0 < LongestPrefixMatch ext (ToUTF8String ext (drop (nat idx) context)))"
proof -
  let ?suffix = "ToUTF8String ext (drop (nat idx) context)"
  let ?b = "LongestPrefixMatch ext ?suffix"
  have past_end: "?b \<le> 0" if "int (length context) \<le> idx"
  proof -
    from that idx have "drop (nat idx) context = []" by simp
    then have "?suffix = []" by (simp add: ToUTF8String_def)
    with trie [rule_format, of ?suffix] show ?thesis by simp
  qed
  have pos: "0 < int (length (UTF8ToUnicodeText ext (take (nat ?b) ?suffix)))" if "0 < ?b"
  proof -
    from that trie [rule_format, of ?suffix] have "?suffix \<noteq> []" by auto
    with that have "take (nat ?b) ?suffix \<noteq> []" by simp
    with codec show ?thesis by simp
  qed
  have zero: "int (length (UTF8ToUnicodeText ext (take (nat ?b) ?suffix))) = 0" if "?b \<le> 0"
  proof -
    from that have "take (nat ?b) ?suffix = []" by simp
    with codec show ?thesis by simp
  qed
  have gpsl: "GetPercentSuffixLength ext context idx =
                (if int (length context) \<le> idx \<or> ?b = - 1 then - 1
                 else int (length (UTF8ToUnicodeText ext (take (nat ?b) ?suffix))))"
    by (simp add: GetPercentSuffixLength_def Let_def)
  show "GetPercentSuffixLength ext context idx =
           (let suffix_context = ?suffix; match_bytes = LongestPrefixMatch ext suffix_context
            in if 0 < match_bytes
               then int (length (UTF8ToUnicodeText ext (take (nat match_bytes) suffix_context)))
               else GetPercentSuffixLength ext context idx)"
  proof (cases "0 < ?b")
    case True
    with past_end have "\<not> int (length context) \<le> idx" by fastforce
    with True show ?thesis
      unfolding Let_def by (subst gpsl) simp
  next
    case False
    then show ?thesis by (simp add: Let_def)
  qed
  show "(0 < GetPercentSuffixLength ext context idx) = (0 < ?b)"
  proof (cases "0 < ?b")
    case True
    with past_end have "\<not> int (length context) \<le> idx" by fastforce
    with True pos show ?thesis
      by (subst gpsl) simp
  next
    case False
    then have "?b \<le> 0" by simp
    from zero [OF this] False show ?thesis
      by (subst gpsl) simp
  qed
qed

text \<open>
  C8. The percentage pass keeps the length of the vector. For an element whose first
  classification is a \<open>Number\<close>, let the dictionary's longest prefix match be taken on the
  bytes of the context from the span's end codepoint on. If its length is positive, the
  first classification becomes a \<open>Percentage\<close> with the configured percentage priority
  score, and the span's end moves on by the number of codepoints in the matched bytes;
  otherwise the element is unchanged. The codec and the dictionary are parameters: decoding
  gives no codepoint for the empty string only, and a match is no longer than the text.
\<close>

theorem FindPercentages_upgrades_numbers:
  assumes "\<forall>s. (UTF8ToUnicodeText ext s = []) = (s = [])"
    and "\<forall>s. LongestPrefixMatch ext s \<le> int (length s)"
    and "i < length result"
    and "classification (result ! i) \<noteq> []"
    and "collection (hd (classification (result ! i))) = Collections_Number"
    and "0 \<le> snd (span (result ! i))"
  shows "length (FindPercentages ext ann context result) = length result
     \<and> FindPercentages ext ann context result ! i =
         (let res = result ! i;
              suffix_context = ToUTF8String ext (drop (nat (snd (span res))) context);
              match_bytes = LongestPrefixMatch ext suffix_context
          in if 0 < match_bytes
             then res\<lparr>classification :=
                        (hd (classification res))
                          \<lparr>collection := Collections_Percentage,
                           priority_score := percentage_priority_score (options ann)\<rparr>
                        # tl (classification res),
                      span := (fst (span res),
                               snd (span res)
                               + int (length (UTF8ToUnicodeText ext
                                                (take (nat match_bytes) suffix_context))))\<rparr>
             else res)"
proof -
  let ?res = "result ! i"
  let ?suffix = "ToUTF8String ext (drop (nat (snd (span ?res))) context)"
  let ?b = "LongestPrefixMatch ext ?suffix"
  note g = GetPercentSuffixLength_positive [OF assms(1) assms(2) assms(6), of "context"]
  have "FindPercentage ext ann context ?res =
          (if 0 < ?b
           then ?res\<lparr>classification :=
                        (hd (classification ?res))
                          \<lparr>collection := Collections_Percentage,
                           priority_score := percentage_priority_score (options ann)\<rparr>
                        # tl (classification ?res),
                      span := (fst (span ?res),
                               snd (span ?res)
                               + int (length (UTF8ToUnicodeText ext (take (nat ?b) ?suffix))))\<rparr>
           else ?res)"
  proof (cases "0 < ?b")
    case True
    with g(2) have "0 < GetPercentSuffixLength ext context (snd (span ?res))" by simp
    moreover from True g(1) have "GetPercentSuffixLength ext context (snd (span ?res))
        = int (length (UTF8ToUnicodeText ext (take (nat ?b) ?suffix)))"
      by (simp add: Let_def)
    ultimately show ?thesis
      using True assms(4,5) by (simp add: FindPercentage_def Let_def)
  next
    case False
    with g(2) have "\<not> 0 < GetPercentSuffixLength ext context (snd (span ?res))" by simp
    with False show ?thesis
      using assms(4,5) by (simp add: FindPercentage_def Let_def)
  qed
  with assms(3) show ?thesis
    by (simp add: FindPercentages_map Let_def)
qed

theorem FindPercentages_upgrades_numbers_witness:
  "FindPercentages sample_externals sample_annotator [0x39, 0x39, 0x25]
     [\<lparr>span = (0, 2),
       classification = [\<lparr>collection = Collections_Number, score = 1, priority_score = 0,
                          numeric_value = 99, numeric_double_value = 99\<rparr>]\<rparr>] ! 0
   = \<lparr>span = (0, 3),
      classification = [\<lparr>collection = Collections_Percentage, score = 1, priority_score = 1,
                         numeric_value = 99, numeric_double_value = 99\<rparr>]\<rparr>"
proof -
  let ?r = "[\<lparr>span = (0, 2),
       classification = [\<lparr>collection = Collections_Number, score = 1, priority_score = 0,
                          numeric_value = 99, numeric_double_value = 99\<rparr>]\<rparr>]"
  have h1: "\<forall>s. (UTF8ToUnicodeText sample_externals s = []) = (s = [])"
    by (simp add: sample_externals_def decode_utf8_empty)
  have h2: "\<forall>s. LongestPrefixMatch sample_externals s \<le> int (length s)"
    by (simp add: sample_externals_def percent_prefix_match_le)
  have h3: "0 < length ?r" by simp
  have h4: "classification (?r ! 0) \<noteq> []" by simp
  have h5: "collection (hd (classification (?r ! 0))) = Collections_Number" by simp
  have h6: "0 \<le> snd (span (?r ! 0))" by simp
  have sfx: "ToUTF8String sample_externals (drop (nat (snd (span (?r ! 0)))) [0x39, 0x39, 0x25])
               = ''%''"
    by code_simp
  have m: "LongestPrefixMatch sample_externals ''%'' = 1"
    by code_simp
  have d: "UTF8ToUnicodeText sample_externals (take (nat 1) ''%'') = [0x25]"
    by code_simp
  have p: "percentage_priority_score (options sample_annotator) = 1"
    by (simp add: sample_annotator_def)
  from FindPercentages_upgrades_numbers [OF h1 h2 h3 h4 h5 h6, of sample_annotator "[0x39, 0x39, 0x25]"]
  show ?thesis
    unfolding Let_def sfx m d p by simp
qed

section \<open>Properties of the lookup engine\<close>

lemma strip_span_shrinks:
  "fst sp \<le> snd sp \<Longrightarrow>
   fst sp \<le> fst (strip_span pre suf t sp) \<and> snd (strip_span pre suf t sp) \<le> snd sp"
  by (auto simp: strip_span_def Let_def)

lemma add_ngrams_snoc:
  "add_ngrams ext idx m (ngrams @ [ngram]) = add_ngram ext idx (add_ngrams ext idx m ngrams) ngram"
  by (induction ngrams arbitrary: m) simp_all

lemma add_ngram_posting_list:
  assumes "ngram_key ext ngram = Some key"
  shows "posting_list (add_ngram ext idx m ngram) key =
           (if posting_list m key = [] \<or> last (posting_list m key) \<noteq> idx
            then posting_list m key @ [idx] else posting_list m key)"
    and "k \<noteq> key \<Longrightarrow> posting_list (add_ngram ext idx m ngram) k = posting_list m k"
  using assms by (simp_all add: add_ngram_def posting_list_def Let_def)

text \<open>
  C7. Take a call of \<open>AddEntry\<close> and the n-gram at position \<open>i\<close> of its list, non-empty,
  valid UTF-8 and with a non-empty key after stripping and case-folded normalization. The
  call on the first \<open>i\<close> n-grams gives the engine as the loop finds it at that n-gram, the
  call on the first \<open>i + 1\<close> the engine as the loop leaves it. The entry's index is appended
  to the key's posting list exactly when that list is empty or ends in another index;
  otherwise the list is unchanged, and so is the posting list of every other key.
\<close>

theorem AddEntry_adjacent_dedup:
  assumes "i < length ngrams"
    and "ngrams ! i \<noteq> []"
    and "is_valid ext (ngrams ! i)"
    and "key = stripped_ngram
                 (StripBoundaryCodepointsAndNormalize ext (UTF8ToUnicodeText ext (ngrams ! i)) 0
                    (int (length (UTF8ToUnicodeText ext (ngrams ! i))))
                    (0, int (length (UTF8ToUnicodeText ext (ngrams ! i)))))"
    and "key \<noteq> []"
  shows "(let entry_index = int (length (entries eng));
              before = ngram_to_entry_index (AddEntry ext eng (take i ngrams) entry);
              after = ngram_to_entry_index (AddEntry ext eng (take (Suc i) ngrams) entry)
          in posting_list after key =
               (if posting_list before key = [] \<or> last (posting_list before key) \<noteq> entry_index
                then posting_list before key @ [entry_index]
                else posting_list before key)
             \<and> (\<forall>k. k \<noteq> key \<longrightarrow> posting_list after k = posting_list before k))"
proof -
  from assms(2-5) have key: "ngram_key ext (ngrams ! i) = Some key"
    by (simp add: ngram_key_def Let_def)
  from assms(1) have "take (Suc i) ngrams = take i ngrams @ [ngrams ! i]"
    by (simp add: take_Suc_conv_app_nth)
  then have step: "ngram_to_entry_index (AddEntry ext eng (take (Suc i) ngrams) entry)
      = add_ngram ext (int (length (entries eng)))
          (ngram_to_entry_index (AddEntry ext eng (take i ngrams) entry)) (ngrams ! i)"
    by (simp add: AddEntry_def Let_def add_ngrams_snoc)
  show ?thesis
    unfolding Let_def step
    using add_ngram_posting_list [OF key] by simp
qed

theorem AddEntry_adjacent_dedup_witness:
  "posting_list (ngram_to_entry_index
       (AddEntry sample_externals (new_engine ''city'') (take 1 [''New York'', ''new york.''])
          (sample_entry 1))) ''new york'' = [0]
   \<and> posting_list (ngram_to_entry_index
       (AddEntry sample_externals (new_engine ''city'') (take (Suc 1) [''New York'', ''new york.''])
          (sample_entry 1))) ''new york'' = [0]"
proof -
  let ?ngrams = "[''New York'', ''new york.'']"
  have h1: "1 < length ?ngrams" by simp
  have h2: "?ngrams ! 1 \<noteq> []" by simp
  have h3: "is_valid sample_externals (?ngrams ! 1)" by code_simp
  have h4: "''new york'' = stripped_ngram
                 (StripBoundaryCodepointsAndNormalize sample_externals
                    (UTF8ToUnicodeText sample_externals (?ngrams ! 1)) 0
                    (int (length (UTF8ToUnicodeText sample_externals (?ngrams ! 1))))
                    (0, int (length (UTF8ToUnicodeText sample_externals (?ngrams ! 1)))))"
    by code_simp
  have h5: "''new york'' \<noteq> []" by simp
  have before: "posting_list (ngram_to_entry_index
       (AddEntry sample_externals (new_engine ''city'') (take 1 ?ngrams) (sample_entry 1)))
       ''new york'' = [0]"
    by code_simp
  have idx: "int (length (entries (new_engine ''city''))) = 0"
    by (simp add: new_engine_def)
  from AddEntry_adjacent_dedup [OF h1 h2 h3 h4 h5, of "new_engine ''city''" "sample_entry 1"]
  have "posting_list (ngram_to_entry_index
       (AddEntry sample_externals (new_engine ''city'') (take (Suc 1) ?ngrams) (sample_entry 1)))
       ''new york'' = [0]"
    unfolding Let_def before idx by simp
  with before show ?thesis by blast
qed

lemma collect_matches_more_entries:
  assumes "list_all (\<lambda>entry_idx. 0 \<le> entry_idx \<and> entry_idx < int (length (entries eng))) idxs"
  shows "collect_matches (eng\<lparr>entries := entries eng @ [entry]\<rparr>) n idxs result_index results
           = collect_matches eng n idxs result_index results"
  using assms
proof (induction idxs arbitrary: result_index results)
  case Nil
  then show ?case by simp
next
  case (Cons entry_idx rest)
  then have "0 \<le> entry_idx" and "entry_idx < int (length (entries eng))"
    by simp_all
  then have "nat entry_idx < length (entries eng)" by linarith
  then have "(entries eng @ [entry]) ! nat entry_idx = entries eng ! nat entry_idx"
    by (simp add: nth_append)
  with Cons show ?case by simp
qed

text \<open>The invariant holds of the engine as constructed, and \<open>AddEntry\<close> keeps it.\<close>

lemma add_ngram_in_range:
  assumes "\<forall>key l. m key = Some l \<longrightarrow> list_all (\<lambda>i. 0 \<le> i \<and> i < n) l"
    and "0 \<le> idx" and "idx < n"
  shows "\<forall>key l. add_ngram ext idx m ngram key = Some l \<longrightarrow> list_all (\<lambda>i. 0 \<le> i \<and> i < n) l"
proof (cases "ngram_key ext ngram")
  case None
  with assms(1) show ?thesis by (simp add: add_ngram_def)
next
  case (Some k)
  have "list_all (\<lambda>i. 0 \<le> i \<and> i < n) (posting_list m k)"
    using assms(1) by (simp add: posting_list_def split: option.splits)
  with assms Some show ?thesis
    by (auto simp: add_ngram_def Let_def)
qed

lemma add_ngrams_in_range:
  assumes "\<forall>key l. m key = Some l \<longrightarrow> list_all (\<lambda>i. 0 \<le> i \<and> i < n) l"
    and "0 \<le> idx" and "idx < n"
  shows "\<forall>key l. add_ngrams ext idx m ngrams key = Some l \<longrightarrow> list_all (\<lambda>i. 0 \<le> i \<and> i < n) l"
  using assms(1)
proof (induction ngrams arbitrary: m)
  case Nil
  then show ?case by simp
next
  case (Cons ngram ngrams)
  from add_ngram_in_range [OF Cons.prems assms(2,3)]
  have "\<forall>key l. add_ngram ext idx m ngram key = Some l \<longrightarrow> list_all (\<lambda>i. 0 \<le> i \<and> i < n) l" .
  from Cons.IH [OF this] show ?case by simp
qed

lemma indices_in_range_new_engine: "indices_in_range (new_engine c)"
  by (simp add: indices_in_range_def new_engine_def)

lemma indices_in_range_AddEntry:
  assumes "indices_in_range eng"
  shows "indices_in_range (AddEntry ext eng ngrams entry)"
proof -
  let ?n = "int (length (entries eng)) + 1"
  have old: "\<forall>key l. ngram_to_entry_index eng key = Some l \<longrightarrow> list_all (\<lambda>i. 0 \<le> i \<and> i < ?n) l"
  proof (intro allI impI)
    fix key l assume "ngram_to_entry_index eng key = Some l"
    with assms have "list_all (\<lambda>i. 0 \<le> i \<and> i < int (length (entries eng))) l"
      unfolding indices_in_range_def by blast
    then show "list_all (\<lambda>i. 0 \<le> i \<and> i < ?n) l"
      by (induction l) auto
  qed
  from add_ngrams_in_range [OF old, of "int (length (entries eng))" ext ngrams]
  show ?thesis
    by (fastforce simp: indices_in_range_def AddEntry_def Let_def list_all_iff)
qed

text \<open>
  C10 (as amended). On the list that holds only the empty string, \<open>AddEntry\<close> leaves every
  posting list as it was and appends the entry to the entry store. In an engine whose
  posting lists hold positions of the entry store, as in every engine built by \<open>AddEntry\<close>,
  every lookup then returns what it returned before.
\<close>

theorem AddEntry_empty_ngram:
  "ngram_to_entry_index (AddEntry ext eng [[]] entry) = ngram_to_entry_index eng
   \<and> entries (AddEntry ext eng [[]] entry) = entries eng @ [entry]
   \<and> collection_name (AddEntry ext eng [[]] entry) = collection_name eng
   \<and> (indices_in_range eng \<longrightarrow>
        (\<forall>token n result_index results.
           FindTokenMatches (AddEntry ext eng [[]] entry) token n result_index results
             = FindTokenMatches eng token n result_index results))"
proof -
  have e: "AddEntry ext eng [[]] entry = eng\<lparr>entries := entries eng @ [entry]\<rparr>"
    by (simp add: AddEntry_def Let_def add_ngram_def ngram_key_def)
  have "FindTokenMatches (eng\<lparr>entries := entries eng @ [entry]\<rparr>) token n result_index results
          = FindTokenMatches eng token n result_index results"
    if "indices_in_range eng" for token n result_index results
    using that
    by (auto simp: FindTokenMatches_def indices_in_range_def collect_matches_more_entries
        split: option.splits)
  then show ?thesis
    unfolding e by simp
qed

theorem AddEntry_empty_ngram_witness:
  "FindTokenMatches
     (AddEntry sample_externals
        (AddEntry sample_externals (new_engine ''city'') [''nyc''] (sample_entry 1))
        [[]] (sample_entry 2))
     ''nyc'' 5 {} []
   = FindTokenMatches (AddEntry sample_externals (new_engine ''city'') [''nyc''] (sample_entry 1))
       ''nyc'' 5 {} []
   \<and> snd (FindTokenMatches (AddEntry sample_externals (new_engine ''city'') [''nyc''] (sample_entry 1))
       ''nyc'' 5 {} []) = [(sample_entry 1)\<lparr>collection := ''city''\<rparr>]"
proof -
  let ?eng = "AddEntry sample_externals (new_engine ''city'') [''nyc''] (sample_entry 1)"
  have k: "ngram_key sample_externals ''nyc'' = Some ''nyc''"
    by code_simp
  have m: "ngram_to_entry_index ?eng = [''nyc'' \<mapsto> [0]]"
    by (simp add: AddEntry_def new_engine_def add_ngram_def posting_list_def k)
  have n: "entries ?eng = [sample_entry 1]"
    by (simp add: AddEntry_def new_engine_def)
  have c: "collection_name ?eng = ''city''"
    by (simp add: AddEntry_def new_engine_def)
  have "indices_in_range ?eng"
    unfolding indices_in_range_def m n by (auto split: if_splits)
  with AddEntry_empty_ngram [of sample_externals ?eng "sample_entry 2"]
  have "FindTokenMatches (AddEntry sample_externals ?eng [[]] (sample_entry 2)) ''nyc'' 5 {} []
          = FindTokenMatches ?eng ''nyc'' 5 {} []"
    by blast
  moreover have "snd (FindTokenMatches ?eng ''nyc'' 5 {} [])
                   = [(sample_entry 1)\<lparr>collection := ''city''\<rparr>]"
    by (simp add: FindTokenMatches_def m n c)
  ultimately show ?thesis by blast
qed

text \<open>
  C10 (as stated) fails: the entry store is not the same after the call. \<open>AddEntry\<close> pushes
  the entry before it looks at the n-grams.
\<close>

theorem AddEntry_empty_ngram_grows_entries:
  "entries (new_engine ''city'') = []
   \<and> entries (AddEntry sample_externals (new_engine ''city'') [[]] (sample_entry 1))
       = [sample_entry 1]"
  by (simp add: AddEntry_def new_engine_def)

lemma advance_max: "advance i iter t = (max i t, iter + (max i t - i))"
proof (induction i iter t rule: advance.induct)
  case (1 i iter t)
  show ?case
  proof (cases "i < t")
    case True
    with "1" show ?thesis by (subst advance.simps) (simp add: max_def)
  next
    case False
    then show ?thesis by (subst advance.simps) (simp add: max_def)
  qed
qed

lemma collect_ends_ok:
  assumes "list_all (candidate_ok tokens start lo) cands"
    and "start < e" and "lo \<le> eidx"
    and "eidx = lo \<or> (\<exists>k. start \<le> k \<and> k < e \<and> eidx = tok_end (tokens ! k))"
  shows "list_all (candidate_ok tokens start lo) (collect_ends tokens start mnt e eidx eit cands)"
  using assms
proof (induction tokens start mnt e eidx eit cands rule: collect_ends.induct)
  case (1 tokens start mnt e eidx eit cands)
  show ?case
  proof (cases "int e \<le> int32 (int start + mnt) \<and> e \<le> length tokens")
    case False
    with "1.prems"(1) show ?thesis by (subst collect_ends.simps) auto
  next
    case True
    let ?t = "tok_end (tokens ! (e - 1))"
    let ?idx = "max eidx ?t"
    let ?it = "eit + (?idx - eidx)"
    have adv: "advance eidx eit ?t = (?idx, ?it)" by (rule advance_max)
    have new_ok: "?idx = lo \<or> (\<exists>k. start \<le> k \<and> k < e \<and> ?idx = tok_end (tokens ! k))"
    proof (cases "eidx < ?t")
      case True
      then have "?idx = ?t" by simp
      moreover from "1.prems"(2) have "start \<le> e - 1" "e - 1 < e" by simp_all
      ultimately show ?thesis by blast
    next
      case False
      then have "?idx = eidx" by simp
      with "1.prems"(4) show ?thesis by simp
    qed
    then have next_ok: "?idx = lo \<or> (\<exists>k. start \<le> k \<and> k < e + 1 \<and> ?idx = tok_end (tokens ! k))"
      by (metis less_SucI Suc_eq_plus1)
    have c_ok: "candidate_ok tokens start lo (e, ?idx, ?it)"
      using True "1.prems"(2,3) new_ok
      unfolding candidate_ok_def by simp
    have "list_all (candidate_ok tokens start lo)
            (collect_ends tokens start mnt (e + 1) ?idx ?it (cands @ [(e, ?idx, ?it)]))"
      using "1.IH" [OF True adv [symmetric] refl] "1.prems" c_ok next_ok by simp
    then show ?thesis
      using True adv by (subst collect_ends.simps) simp
  qed
qed

lemma longest_match_Some:
  assumes "longest_match fm n idx iter cs = Some (a, e)"
  shows "\<exists>c \<in> set cs. e = fst c \<and> span a = snd (window_matches fm n idx iter c)
           \<and> classification a = fst (window_matches fm n idx iter c)
           \<and> classification a \<noteq> []"
  using assms
  by (induction cs) (auto simp: Let_def split_beta split: if_splits)

lemma chunk_step_inv:
  assumes ord: "tokens_ordered tokens" and fm: "shrinks fm"
    and start: "start < length tokens" and inv: "chunk_inv tokens start st"
  shows "chunk_inv tokens (start + 1) (chunk_step fm tokens mnt n start st)"
proof (cases "start < minimum_start st")
  case True
  then have "chunk_step fm tokens mnt n start st = st"
    by (simp add: chunk_step_def)
  moreover from inv True have "chunk_inv tokens (start + 1) st"
    unfolding chunk_inv_def by auto
  ultimately show ?thesis by simp
next
  case False
  let ?lo = "max (cur_codepoint_idx st) (tok_start (tokens ! start))"
  let ?it = "cur_it st + (?lo - cur_codepoint_idx st)"
  let ?cands = "collect_ends tokens start mnt (start + 1) ?lo ?it []"
  have adv: "advance (cur_codepoint_idx st) (cur_it st) (tok_start (tokens ! start)) = (?lo, ?it)"
    by (rule advance_max)
  have old: "snd (span r) \<le> ?lo" if "r \<in> set (spans st)" for r
  proof -
    from inv that have "snd (span r) \<le> cur_codepoint_idx st
        \<or> (\<forall>s. start \<le> s \<and> minimum_start st \<le> s \<and> s < length tokens
              \<longrightarrow> snd (span r) \<le> tok_start (tokens ! s))"
      unfolding chunk_inv_def by blast
    then show ?thesis
    proof
      assume "snd (span r) \<le> cur_codepoint_idx st"
      then show ?thesis by simp
    next
      assume "\<forall>s. start \<le> s \<and> minimum_start st \<le> s \<and> s < length tokens
              \<longrightarrow> snd (span r) \<le> tok_start (tokens ! s)"
      with False start have "snd (span r) \<le> tok_start (tokens ! start)" by simp
      then show ?thesis by simp
    qed
  qed
  show ?thesis
  proof (cases "longest_match fm n ?lo ?it (rev ?cands)")
    case None
    then have step: "chunk_step fm tokens mnt n start st
        = st\<lparr>cur_codepoint_idx := ?lo, cur_it := ?it\<rparr>"
      using False adv by (simp add: chunk_step_def)
    show ?thesis
      unfolding step chunk_inv_def using inv old
      by (simp add: chunk_inv_def)
  next
    case (Some p)
    obtain a e where p: "p = (a, e)" by (cases p)
    from Some p have step: "chunk_step fm tokens mnt n start st
        = st\<lparr>cur_codepoint_idx := ?lo, cur_it := ?it, minimum_start := e,
              spans := spans st @ [a]\<rparr>"
      using False adv by (simp add: chunk_step_def)
    from longest_match_Some [OF Some [unfolded p]]
    obtain c where c: "c \<in> set ?cands" "e = fst c"
      "span a = snd (window_matches fm n ?lo ?it c)"
      by auto
    have "list_all (candidate_ok tokens start ?lo) ?cands"
      by (rule collect_ends_ok) simp_all
    with c(1) have ok: "candidate_ok tokens start ?lo c"
      by (simp add: list_all_iff)
    then have valid: "?lo \<le> fst (snd c)"
      by (simp add: candidate_ok_def)
    from fm have sh: "fst sp \<le> fst (snd (fm n' x y sp)) \<and> snd (snd (fm n' x y sp)) \<le> snd sp"
      if "fst sp \<le> snd sp" for n' x y sp
      using that unfolding shrinks_def by blast
    from sh [of "(?lo, fst (snd c))" n ?it "snd (snd c)"] valid c(3)
    have lo: "?lo \<le> fst (span a)" and hi: "snd (span a) \<le> fst (snd c)"
      by (simp_all add: window_matches_def)
    have later: "fst (snd c) \<le> ?lo
        \<or> (\<forall>s. e \<le> s \<and> s < length tokens \<longrightarrow> fst (snd c) \<le> tok_start (tokens ! s))"
    proof -
      from ok have "fst (snd c) = ?lo
          \<or> (\<exists>k. start \<le> k \<and> k < fst c \<and> fst (snd c) = tok_end (tokens ! k))"
        by (simp add: candidate_ok_def)
      then show ?thesis
      proof
        assume "fst (snd c) = ?lo"
        then show ?thesis by simp
      next
        assume "\<exists>k. start \<le> k \<and> k < fst c \<and> fst (snd c) = tok_end (tokens ! k)"
        then obtain k where k: "k < fst c" "fst (snd c) = tok_end (tokens ! k)" by blast
        have "fst (snd c) \<le> tok_start (tokens ! s)" if "e \<le> s" "s < length tokens" for s
        proof -
          from k(1) c(2) that have "k < s" by simp
          with ord that(2) have "tok_end (tokens ! k) \<le> tok_start (tokens ! s)"
            unfolding tokens_ordered_def by (simp add: sorted_wrt_iff_nth_less)
          with k(2) show ?thesis by simp
        qed
        then show ?thesis by blast
      qed
    qed
    have sorted: "no_overlap (spans st @ [a])"
    proof -
      from inv have "no_overlap (spans st)" by (simp add: chunk_inv_def)
      moreover have "snd (span r) \<le> fst (span a)" if "r \<in> set (spans st)" for r
        using old [OF that] lo by (rule order_trans)
      ultimately show ?thesis
        by (simp add: no_overlap_def sorted_wrt_append)
    qed
    have bound: "snd (span r) \<le> ?lo
        \<or> (\<forall>s. start + 1 \<le> s \<and> e \<le> s \<and> s < length tokens
              \<longrightarrow> snd (span r) \<le> tok_start (tokens ! s))"
      if "r \<in> set (spans st @ [a])" for r
    proof (cases "r = a")
      case True
      from later show ?thesis
      proof
        assume "fst (snd c) \<le> ?lo"
        with hi True show ?thesis by simp
      next
        assume "\<forall>s. e \<le> s \<and> s < length tokens \<longrightarrow> fst (snd c) \<le> tok_start (tokens ! s)"
        with hi True show ?thesis by force
      qed
    next
      case False
      with that have "r \<in> set (spans st)" by simp
      from old [OF this] show ?thesis by simp
    qed
    show ?thesis
      unfolding step chunk_inv_def using sorted bound by simp
  qed
qed

lemma chunk_loop_inv:
  assumes "tokens_ordered tokens" and "shrinks fm" and "chunk_inv tokens start st"
  shows "no_overlap (spans (chunk_loop fm tokens mnt n start st))"
  using assms
proof (induction fm tokens mnt n start st rule: chunk_loop.induct)
  case (1 fm tokens mnt n start st)
  show ?case
  proof (cases "start < length tokens")
    case True
    from chunk_step_inv [OF "1.prems"(1,2) True "1.prems"(3)]
    have "chunk_inv tokens (start + 1) (chunk_step fm tokens mnt n start st)" .
    from "1.IH" [OF True "1.prems"(1,2) this] True show ?thesis
      by (subst chunk_loop.simps) simp
  next
    case False
    with "1.prems"(3) show ?thesis
      by (subst chunk_loop.simps) (simp add: chunk_inv_def)
  qed
qed

lemma FindMatches_shrinks:
  assumes "\<forall>text a b sp. fst sp \<le> snd sp \<longrightarrow>
             fst sp \<le> fst (StripBoundaryCodepoints ext text a b sp)
             \<and> snd (StripBoundaryCodepoints ext text a b sp) \<le> snd sp"
  shows "shrinks (FindMatches ext eng text)"
  using assms
  by (simp add: shrinks_def FindMatches_def StripBoundaryCodepointsAndNormalize_def Let_def)

text \<open>
  C1. For every context, every token list in which each token ends before or where every
  later one starts, and every \<open>max_num_tokens\<close> and \<open>max_num_matches\<close>, the spans that
  \<open>ChunkInternal\<close> records with the engine's own \<open>FindMatches\<close> do not overlap: a span
  recorded before another ends at or before the start of the other. \<open>max_num_tokens\<close> is
  an \<open>int\<close> that the sum \<open>start + max_num_tokens\<close> does not overflow at any start token.
  The boundary stripper is a parameter; its contract is that it returns a span inside the
  one it is given.
\<close>

theorem ChunkInternal_no_overlap:
  assumes "tokens_ordered tokens"
    and "\<forall>text a b sp. fst sp \<le> snd sp \<longrightarrow>
             fst sp \<le> fst (StripBoundaryCodepoints ext text a b sp)
             \<and> snd (StripBoundaryCodepoints ext text a b sp) \<le> snd sp"
    and "- (2 ^ 31) \<le> max_num_tokens"
    and "int (length tokens) + max_num_tokens \<le> 2 ^ 31"
  shows "no_overlap
           (ChunkInternal (FindMatches ext eng context_unicode) tokens max_num_tokens
              max_num_matches [])"
  unfolding ChunkInternal_def
  by (rule chunk_loop_inv [OF assms(1) FindMatches_shrinks [OF assms(2)]])
     (simp add: chunk_inv_def no_overlap_def)

theorem ChunkInternal_no_overlap_witness:
  "tokens_ordered sample_tokens
   \<and> int (length sample_tokens) + 3 \<le> 2 ^ 31
   \<and> no_overlap
       (ChunkInternal (FindMatches sample_externals sample_engine sample_context) sample_tokens
          3 5 [])
   \<and> map span
       (ChunkInternal (FindMatches sample_externals sample_engine sample_context) sample_tokens
          3 5 [])
     = [(3, 16), (18, 21)]"
proof -
  have h1: "tokens_ordered sample_tokens"
    by code_simp
  have h2: "\<forall>text a b sp. fst sp \<le> snd sp \<longrightarrow>
             fst sp \<le> fst (StripBoundaryCodepoints sample_externals text a b sp)
             \<and> snd (StripBoundaryCodepoints sample_externals text a b sp) \<le> snd sp"
    by (simp add: sample_externals_def strip_span_shrinks)
  have h3: "- (2 ^ 31) \<le> (3 :: int)"
    by simp
  have h4: "int (length sample_tokens) + 3 \<le> 2 ^ 31"
    by code_simp
  have "map span
       (ChunkInternal (FindMatches sample_externals sample_engine sample_context) sample_tokens
          3 5 [])
     = [(3, 16), (18, 21)]"
    by code_simp
  with h1 h4 ChunkInternal_no_overlap [OF h1 h2 h3 h4, of sample_engine sample_context 5]
  show ?thesis by blast
qed









end
